theory Spec2Isabelle
  imports Complex_Main "HOL-Library.AList"
begin

section \<open>Data model of lab.py\<close>

text \<open>
  Node ids are Python integers. Latitudes, longitudes and path costs are Python floats;
  they are modelled as exact reals, so the theorems below are about the algorithm over
  exact arithmetic (every concrete input used below is a small dyadic number, which a
  float represents exactly). A tag value is a string or a number.
\<close>

type_synonym node_id = int
type_synonym loc = "real \<times> real"

datatype tag_value = Str string | Num int

datatype py_error = KeyError | TypeError | IndexError | ZeroDivisionError

text \<open>The records that \<open>read_osm_data\<close> yields: a way and a node.\<close>

record osm_way =
  w_id :: int
  w_nodes :: "node_id list"
  w_tags :: "string \<rightharpoonup> tag_value"

record osm_node =
  n_id :: node_id
  n_lat :: real
  n_lon :: real
  n_tags :: "string \<rightharpoonup> tag_value"

text \<open>
  An entry \<open>my_structure[node_id]\<close>: a dict that always has the key \<open>'connected'\<close>
  (neighbour id to speed limit, in insertion order) and has \<open>'lat'\<close>, \<open>'lon'\<close>,
  \<open>'tags'\<close> only once the node pass has seen the node. The whole structure is the dict of
  these entries together with \<open>my_structure['locations']\<close>, a dict from coordinate to
  node id whose iteration order is its insertion order.
\<close>

record node_entry =
  lat :: "real option"
  lon :: "real option"
  tags :: "(string \<rightharpoonup> tag_value) option"
  connected :: "(node_id \<times> tag_value) list"

record aux_structures =
  entries :: "node_id \<rightharpoonup> node_entry"
  locations :: "(loc \<times> node_id) list"

section \<open>The search engine\<close>

text \<open>\<open>get_lat_lon\<close>: \<open>None\<close> for an id that is not a key, KeyError for an entry without
  \<open>'lat'\<close> or \<open>'lon'\<close>.\<close>

definition get_lat_lon :: "node_id \<Rightarrow> aux_structures \<Rightarrow> py_error + loc option" where
  "get_lat_lon node_id aux =
     (case entries aux node_id of
        None \<Rightarrow> Inr None
      | Some e \<Rightarrow>
         (case lat e of
            None \<Rightarrow> Inl KeyError
          | Some la \<Rightarrow> (case lon e of None \<Rightarrow> Inl KeyError | Some lo \<Rightarrow> Inr (Some (la, lo)))))"

text \<open>
  \<open>great_circle_distance\<close> lives in \<open>util.py\<close>, which is not part of the sources; it is a
  parameter \<open>gc\<close> of every function that calls it. A call with \<open>None\<close> for a coordinate
  cannot unpack it and raises TypeError.
\<close>

definition call_distance :: "(loc \<Rightarrow> loc \<Rightarrow> real) \<Rightarrow> loc option \<Rightarrow> loc option \<Rightarrow> py_error + real" where
  "call_distance gc a b =
     (case a of
        None \<Rightarrow> Inl TypeError
      | Some x \<Rightarrow> (case b of None \<Rightarrow> Inl TypeError | Some y \<Rightarrow> Inr (gc x y)))"

type_synonym agenda_item = "node_id list \<times> real"

text \<open>The value \<open>f\<close> (or \<open>path_and_cost[1]\<close>) that the scan of the agenda compares.\<close>

definition priority ::
  "(loc \<Rightarrow> loc \<Rightarrow> real) \<Rightarrow> node_id \<Rightarrow> aux_structures \<Rightarrow> bool \<Rightarrow> agenda_item \<Rightarrow> py_error + real" where
  "priority gc goal aux heuristic pc =
     (if heuristic then
        (if fst pc = [] then Inl IndexError
         else
           (case get_lat_lon (last (fst pc)) aux of
              Inl e \<Rightarrow> Inl e
            | Inr l1 \<Rightarrow>
               (case get_lat_lon goal aux of
                  Inl e \<Rightarrow> Inl e
                | Inr l2 \<Rightarrow>
                   (case call_distance gc l1 l2 of
                      Inl e \<Rightarrow> Inl e
                    | Inr h \<Rightarrow> Inr (snd pc + h)))))
      else Inr (snd pc))"

text \<open>The inner \<open>for path_and_cost in agenda\<close> loop: \<open>min_cost\<close>, \<open>min_index\<close>, \<open>index\<close>.\<close>

fun scan_agenda ::
  "(agenda_item \<Rightarrow> py_error + real) \<Rightarrow> agenda_item list \<Rightarrow> real option \<Rightarrow> nat \<Rightarrow> nat \<Rightarrow> py_error + nat" where
  "scan_agenda prio [] min_cost min_index index = Inr min_index"
| "scan_agenda prio (pc # rest) min_cost min_index index =
     (case prio pc of
        Inl e \<Rightarrow> Inl e
      | Inr f \<Rightarrow>
         (if min_cost = None \<or> f < the min_cost
          then scan_agenda prio rest (Some f) index (index + 1)
          else scan_agenda prio rest min_cost min_index (index + 1)))"

text \<open>Python's \<open>if c:\<close> on the value of \<open>cost\<close>: \<open>None\<close> and zero are false.\<close>

definition truthy_cost :: "real option \<Rightarrow> bool" where
  "truthy_cost c = (c \<noteq> None \<and> c \<noteq> Some 0)"

text \<open>The \<open>for n in neighbors(terminal_vertex)\<close> loop; \<open>expanded\<close> already holds the
  terminal vertex.\<close>

fun push_neighbors ::
  "(node_id \<Rightarrow> node_id \<Rightarrow> py_error + real option) \<Rightarrow> node_id \<Rightarrow> agenda_item \<Rightarrow> node_id set \<Rightarrow>
   node_id list \<Rightarrow> agenda_item list \<Rightarrow> py_error + agenda_item list" where
  "push_neighbors cost t path expanded [] agenda = Inr agenda"
| "push_neighbors cost t path expanded (n # ns) agenda =
     (if n \<in> expanded then push_neighbors cost t path expanded ns agenda
      else
        (case cost t n of
           Inl e \<Rightarrow> Inl e
         | Inr c \<Rightarrow>
            (if truthy_cost c
             then push_neighbors cost t path expanded ns (agenda @ [(fst path @ [n], snd path + the c)])
             else push_neighbors cost t path expanded ns agenda)))"

text \<open>One iteration of \<open>while agenda\<close>: it ends the search or hands on the next state.\<close>

datatype ('r, 's) step = Done 'r | Continue 's

type_synonym search_state = "agenda_item list \<times> node_id set"

definition search_step ::
  "(loc \<Rightarrow> loc \<Rightarrow> real) \<Rightarrow> node_id \<Rightarrow> (node_id \<Rightarrow> py_error + node_id list) \<Rightarrow>
   (node_id \<Rightarrow> node_id \<Rightarrow> py_error + real option) \<Rightarrow> aux_structures \<Rightarrow> bool \<Rightarrow>
   search_state \<Rightarrow> (py_error + node_id list option, search_state) step" where
  "search_step gc goal neighbors cost aux heuristic st =
     (let agenda = fst st; expanded_set = snd st in
      if agenda = [] then Done (Inr None)
      else
        (case scan_agenda (priority gc goal aux heuristic) agenda None 0 0 of
           Inl e \<Rightarrow> Done (Inl e)
         | Inr min_index \<Rightarrow>
            (let path = agenda ! min_index;
                 agenda' = take min_index agenda @ drop (Suc min_index) agenda in
             if fst path = [] then Done (Inl IndexError)
             else
               (let terminal_vertex = last (fst path) in
                if terminal_vertex \<in> expanded_set then Continue (agenda', expanded_set)
                else if terminal_vertex = goal then Done (Inr (Some (fst path)))
                else
                  (case neighbors terminal_vertex of
                     Inl e \<Rightarrow> Done (Inl e)
                   | Inr ns \<Rightarrow>
                      (case push_neighbors cost terminal_vertex path
                              (insert terminal_vertex expanded_set) ns agenda' of
                         Inl e \<Rightarrow> Done (Inl e)
                       | Inr agenda'' \<Rightarrow> Continue (agenda'', insert terminal_vertex expanded_set)))))))"

text \<open>The \<open>while\<close> loop. A search that never ends has the value \<open>None\<close>.\<close>

partial_function (option) search_loop ::
  "(search_state \<Rightarrow> (py_error + node_id list option, search_state) step) \<Rightarrow> search_state \<Rightarrow>
   (py_error + node_id list option) option" where
  "search_loop stepf st =
     (case stepf st of Done r \<Rightarrow> Some r | Continue st' \<Rightarrow> search_loop stepf st')"

definition uniform_cost_search ::
  "(loc \<Rightarrow> loc \<Rightarrow> real) \<Rightarrow> node_id \<Rightarrow> node_id \<Rightarrow> (node_id \<Rightarrow> py_error + node_id list) \<Rightarrow>
   (node_id \<Rightarrow> node_id \<Rightarrow> py_error + real option) \<Rightarrow> aux_structures \<Rightarrow> bool \<Rightarrow>
   (py_error + node_id list option) option" where
  "uniform_cost_search gc start goal neighbors cost aux heuristic =
     search_loop (search_step gc goal neighbors cost aux heuristic) ([([start], 0)], {})"

section \<open>Paths of the graph the search walks\<close>

text \<open>
  An edge the search can follow: \<open>v\<close> is one of \<open>neighbors(u)\<close> and \<open>cost(u, v)\<close> is a
  number other than zero. A route is a path from \<open>start\<close> along such edges, with the cost
  the search accumulates for it.
\<close>

definition usable_edge ::
  "(node_id \<Rightarrow> py_error + node_id list) \<Rightarrow> (node_id \<Rightarrow> node_id \<Rightarrow> py_error + real option) \<Rightarrow>
   node_id \<Rightarrow> node_id \<Rightarrow> real \<Rightarrow> bool" where
  "usable_edge neighbors cost u v c =
     ((\<exists>ns. neighbors u = Inr ns \<and> v \<in> set ns) \<and> cost u v = Inr (Some c) \<and> c \<noteq> 0)"

inductive route ::
  "(node_id \<Rightarrow> py_error + node_id list) \<Rightarrow> (node_id \<Rightarrow> node_id \<Rightarrow> py_error + real option) \<Rightarrow>
   node_id \<Rightarrow> node_id list \<Rightarrow> real \<Rightarrow> bool"
  for neighbors cost start where
  route_start: "route neighbors cost start [start] 0"
| route_step: "route neighbors cost start p g \<Longrightarrow> usable_edge neighbors cost (last p) v c \<Longrightarrow>
     route neighbors cost start (p @ [v]) (g + c)"


text \<open>The invariant of the \<open>while\<close> loop that the optimality proof uses.\<close>

definition search_inv ::
  "(node_id \<Rightarrow> py_error + node_id list) \<Rightarrow> (node_id \<Rightarrow> node_id \<Rightarrow> py_error + real option) \<Rightarrow>
   node_id \<Rightarrow> search_state \<Rightarrow> bool" where
  "search_inv neighbors cost start st =
     ((\<forall>pc\<in>set (fst st). route neighbors cost start (fst pc) (snd pc)) \<and>
      (\<forall>q gq v c. route neighbors cost start q gq \<longrightarrow> last q \<in> snd st \<longrightarrow>
          usable_edge neighbors cost (last q) v c \<longrightarrow> v \<notin> snd st \<longrightarrow>
          (\<exists>pc\<in>set (fst st). last (fst pc) = v \<and> snd pc \<le> gq + c)) \<and>
      (start \<notin> snd st \<longrightarrow> (\<exists>pc\<in>set (fst st). last (fst pc) = start \<and> snd pc \<le> 0)))"


section \<open>Building the graph\<close>

definition ALLOWED_HIGHWAY_TYPES :: "string set" where
  "ALLOWED_HIGHWAY_TYPES =
     {''motorway'', ''trunk'', ''primary'', ''secondary'', ''tertiary'', ''unclassified'',
      ''residential'', ''living_street'', ''motorway_link'', ''trunk_link'',
      ''primary_link'', ''secondary_link'', ''tertiary_link''}"

definition DEFAULT_SPEED_LIMIT_MPH :: "string \<rightharpoonup> int" where
  "DEFAULT_SPEED_LIMIT_MPH =
     map_of
       [(''motorway'', 60), (''trunk'', 45), (''primary'', 35), (''secondary'', 30),
        (''residential'', 25), (''tertiary'', 25), (''unclassified'', 25),
        (''living_street'', 10), (''motorway_link'', 30), (''trunk_link'', 30),
        (''primary_link'', 30), (''secondary_link'', 30), (''tertiary_link'', 25)]"

text \<open>\<open>'highway' in way['tags'] and way['tags']['highway'] in ALLOWED_HIGHWAY_TYPES\<close>\<close>

definition valid_way :: "osm_way \<Rightarrow> bool" where
  "valid_way way =
     (case w_tags way ''highway'' of
        Some (Str h) \<Rightarrow> h \<in> ALLOWED_HIGHWAY_TYPES
      | _ \<Rightarrow> False)"

text \<open>The speed limit of a way: the tag \<open>maxspeed_mph\<close>, else the table's value for its
  \<open>highway\<close> tag (KeyError for a key the table does not have).\<close>

definition speed_limit_of :: "osm_way \<Rightarrow> py_error + tag_value" where
  "speed_limit_of way =
     (case w_tags way ''maxspeed_mph'' of
        Some v \<Rightarrow> Inr v
      | None \<Rightarrow>
         (case w_tags way ''highway'' of
            Some (Str h) \<Rightarrow>
              (case DEFAULT_SPEED_LIMIT_MPH h of None \<Rightarrow> Inl KeyError | Some s \<Rightarrow> Inr (Num s))
          | _ \<Rightarrow> Inl KeyError))"

text \<open>\<open>my_structure[prev_node_id]['connected'][node] = speed_limit\<close>, creating the entry
  when \<open>prev_node_id\<close> is not a key yet.\<close>

definition add_connection ::
  "tag_value \<Rightarrow> node_id \<Rightarrow> node_id \<Rightarrow> (node_id \<rightharpoonup> node_entry) \<Rightarrow> (node_id \<rightharpoonup> node_entry)" where
  "add_connection speed_limit prev_node_id node my_structure =
     (case my_structure prev_node_id of
        Some e \<Rightarrow>
          my_structure(prev_node_id \<mapsto> e\<lparr>connected := AList.update node speed_limit (connected e)\<rparr>)
      | None \<Rightarrow>
          my_structure(prev_node_id \<mapsto>
            \<lparr>lat = None, lon = None, tags = None, connected = [(node, speed_limit)]\<rparr>))"

text \<open>
  The \<open>for node in way['nodes']\<close> loop (and the same loop over \<open>reversed(way['nodes'])\<close>).
  The state is \<open>my_structure\<close> without its \<open>'locations'\<close> and \<open>connected_nodes\<close>.
  \<open>if prev_node_id:\<close> is false for \<open>None\<close> and for the id 0.
\<close>

fun walk_nodes ::
  "tag_value \<Rightarrow> node_id list \<Rightarrow> node_id option \<Rightarrow>
   (node_id \<rightharpoonup> node_entry) \<times> node_id set \<Rightarrow> (node_id \<rightharpoonup> node_entry) \<times> node_id set" where
  "walk_nodes speed_limit [] prev_node_id st = st"
| "walk_nodes speed_limit (node # rest) prev_node_id st =
     walk_nodes speed_limit rest (Some node)
       ((if prev_node_id \<noteq> None \<and> prev_node_id \<noteq> Some 0
         then add_connection speed_limit (the prev_node_id) node (fst st)
         else fst st),
        insert node (snd st))"

definition is_oneway :: "osm_way \<Rightarrow> bool" where
  "is_oneway way = (w_tags way ''oneway'' = Some (Str ''yes''))"

definition add_way ::
  "osm_way \<Rightarrow> (node_id \<rightharpoonup> node_entry) \<times> node_id set \<Rightarrow>
   py_error + (node_id \<rightharpoonup> node_entry) \<times> node_id set" where
  "add_way way st =
     (if valid_way way then
        (case speed_limit_of way of
           Inl e \<Rightarrow> Inl e
         | Inr speed_limit \<Rightarrow>
            (let st1 = walk_nodes speed_limit (w_nodes way) None st in
             if \<not> is_oneway way
             then Inr (walk_nodes speed_limit (rev (w_nodes way)) None st1)
             else Inr st1))
      else Inr st)"

fun add_ways ::
  "osm_way list \<Rightarrow> (node_id \<rightharpoonup> node_entry) \<times> node_id set \<Rightarrow>
   py_error + (node_id \<rightharpoonup> node_entry) \<times> node_id set" where
  "add_ways [] st = Inr st"
| "add_ways (way # rest) st =
     (case add_way way st of Inl e \<Rightarrow> Inl e | Inr st' \<Rightarrow> add_ways rest st')"

text \<open>The \<open>for node in read_osm_data(nodes_filename)\<close> loop.\<close>

definition add_node :: "node_id set \<Rightarrow> osm_node \<Rightarrow> aux_structures \<Rightarrow> aux_structures" where
  "add_node connected_nodes node my_structure =
     (if n_id node \<in> connected_nodes then
        \<lparr>entries =
           (case entries my_structure (n_id node) of
              Some e \<Rightarrow>
                (entries my_structure)(n_id node \<mapsto>
                  e\<lparr>lat := Some (n_lat node), lon := Some (n_lon node), tags := Some (n_tags node)\<rparr>)
            | None \<Rightarrow>
                (entries my_structure)(n_id node \<mapsto>
                  \<lparr>lat = Some (n_lat node), lon = Some (n_lon node), tags = Some (n_tags node),
                   connected = []\<rparr>)),
         locations = AList.update (n_lat node, n_lon node) (n_id node) (locations my_structure)\<rparr>
      else my_structure)"

fun add_nodes :: "node_id set \<Rightarrow> osm_node list \<Rightarrow> aux_structures \<Rightarrow> aux_structures" where
  "add_nodes connected_nodes [] my_structure = my_structure"
| "add_nodes connected_nodes (node # rest) my_structure =
     add_nodes connected_nodes rest (add_node connected_nodes node my_structure)"

text \<open>\<open>build_auxiliary_structures\<close>, on the two lists of records that \<open>read_osm_data\<close>
  yields for \<open>ways_filename\<close> and \<open>nodes_filename\<close>.\<close>

definition build_auxiliary_structures :: "osm_node list \<Rightarrow> osm_way list \<Rightarrow> py_error + aux_structures" where
  "build_auxiliary_structures node_records way_records =
     (case add_ways way_records (Map.empty, {}) of
        Inl e \<Rightarrow> Inl e
      | Inr st \<Rightarrow>
         Inr (add_nodes (snd st) node_records \<lparr>entries = fst st, locations = []\<rparr>))"

text \<open>The weight of the edge \<open>u \<rightarrow> v\<close> of a graph, when it has one:
  \<open>aux_structures[u]['connected'][v]\<close>.\<close>

definition edge_weight :: "aux_structures \<Rightarrow> node_id \<Rightarrow> node_id \<Rightarrow> tag_value option" where
  "edge_weight aux u v =
     (case entries aux u of None \<Rightarrow> None | Some e \<Rightarrow> map_of (connected e) v)"

section \<open>The two path queries\<close>

text \<open>The closures \<open>neighbors\<close> and \<open>cost\<close> of \<open>find_short_path\<close> and \<open>find_fast_path\<close>.\<close>

definition neighbors_of :: "aux_structures \<Rightarrow> node_id \<Rightarrow> py_error + node_id list" where
  "neighbors_of aux node_id =
     (case entries aux node_id of
        None \<Rightarrow> Inl KeyError
      | Some e \<Rightarrow> (if map fst (connected e) \<noteq> [] then Inr (map fst (connected e)) else Inr []))"

definition short_cost ::
  "(loc \<Rightarrow> loc \<Rightarrow> real) \<Rightarrow> aux_structures \<Rightarrow> node_id \<Rightarrow> node_id \<Rightarrow> py_error + real option" where
  "short_cost gc aux node_id_1 node_id_2 =
     (case get_lat_lon node_id_1 aux of
        Inl e \<Rightarrow> Inl e
      | Inr loc1 \<Rightarrow>
         (case get_lat_lon node_id_2 aux of
            Inl e \<Rightarrow> Inl e
          | Inr loc2 \<Rightarrow>
             (if loc1 \<noteq> None \<and> loc2 \<noteq> None then Inr (Some (gc (the loc1) (the loc2)))
              else Inr None)))"

text \<open>Dividing a float by the stored speed limit: TypeError for a string, ZeroDivisionError
  for zero.\<close>

definition divide_by_speed :: "real \<Rightarrow> tag_value \<Rightarrow> py_error + real" where
  "divide_by_speed d speed_limit =
     (case speed_limit of
        Str s \<Rightarrow> Inl TypeError
      | Num n \<Rightarrow> (if n = 0 then Inl ZeroDivisionError else Inr (d / real_of_int n)))"

definition fast_cost ::
  "(loc \<Rightarrow> loc \<Rightarrow> real) \<Rightarrow> aux_structures \<Rightarrow> node_id \<Rightarrow> node_id \<Rightarrow> py_error + real option" where
  "fast_cost gc aux node_id_1 node_id_2 =
     (case get_lat_lon node_id_1 aux of
        Inl e \<Rightarrow> Inl e
      | Inr loc1 \<Rightarrow>
         (case get_lat_lon node_id_2 aux of
            Inl e \<Rightarrow> Inl e
          | Inr loc2 \<Rightarrow>
             (case edge_weight aux node_id_1 node_id_2 of
                None \<Rightarrow> Inl KeyError
              | Some speed_limit \<Rightarrow>
                 (if loc1 \<noteq> None \<and> loc2 \<noteq> None then
                    (case divide_by_speed (gc (the loc1) (the loc2)) speed_limit of
                       Inl e \<Rightarrow> Inl e
                     | Inr c \<Rightarrow> Inr (Some c))
                  else Inr None))))"

definition find_short_path_nodes ::
  "(loc \<Rightarrow> loc \<Rightarrow> real) \<Rightarrow> aux_structures \<Rightarrow> node_id \<Rightarrow> node_id \<Rightarrow> (py_error + node_id list option) option" where
  "find_short_path_nodes gc aux node1 node2 =
     (if node1 = node2 then Some (Inr (Some [node1]))
      else uniform_cost_search gc node1 node2 (neighbors_of aux) (short_cost gc aux) aux True)"

text \<open>The loop of \<open>get_nearest_node_id\<close> over the keys of \<open>'locations'\<close>: \<open>min_dist\<close>,
  \<open>min_node_id\<close>.\<close>

fun nearest_scan ::
  "(loc \<Rightarrow> loc \<Rightarrow> real) \<Rightarrow> loc \<Rightarrow> (loc \<times> node_id) list \<Rightarrow> real option \<Rightarrow> node_id option \<Rightarrow> node_id option" where
  "nearest_scan gc loc [] min_dist min_node_id = min_node_id"
| "nearest_scan gc loc ((l, node_id) # rest) min_dist min_node_id =
     (if min_dist = None \<or> the min_dist > gc loc l
      then nearest_scan gc loc rest (Some (gc loc l)) (Some node_id)
      else nearest_scan gc loc rest min_dist min_node_id)"

definition get_nearest_node_id :: "(loc \<Rightarrow> loc \<Rightarrow> real) \<Rightarrow> loc \<Rightarrow> aux_structures \<Rightarrow> node_id option" where
  "get_nearest_node_id gc loc aux = nearest_scan gc loc (locations aux) None None"

text \<open>\<open>(aux_structures[node_id]['lat'], aux_structures[node_id]['lon'])\<close>\<close>

definition lat_lon_of :: "aux_structures \<Rightarrow> node_id \<Rightarrow> py_error + loc" where
  "lat_lon_of aux node_id =
     (case entries aux node_id of
        None \<Rightarrow> Inl KeyError
      | Some e \<Rightarrow>
         (case lat e of
            None \<Rightarrow> Inl KeyError
          | Some la \<Rightarrow> (case lon e of None \<Rightarrow> Inl KeyError | Some lo \<Rightarrow> Inr (la, lo))))"

fun loc_path :: "aux_structures \<Rightarrow> node_id list \<Rightarrow> py_error + loc list" where
  "loc_path aux [] = Inr []"
| "loc_path aux (node_id # rest) =
     (case lat_lon_of aux node_id of
        Inl e \<Rightarrow> Inl e
      | Inr l \<Rightarrow> (case loc_path aux rest of Inl e \<Rightarrow> Inl e | Inr ls \<Rightarrow> Inr (l # ls)))"

text \<open>\<open>if nodes_path:\<close> is false for \<open>None\<close> and for the empty list.\<close>

definition convert_nodes_path_to_loc_path ::
  "node_id list option \<Rightarrow> aux_structures \<Rightarrow> py_error + loc list option" where
  "convert_nodes_path_to_loc_path nodes_path aux =
     (case nodes_path of
        None \<Rightarrow> Inr None
      | Some p \<Rightarrow>
         (if p = [] then Inr None
          else (case loc_path aux p of Inl e \<Rightarrow> Inl e | Inr ls \<Rightarrow> Inr (Some ls))))"

text \<open>Python's \<open>not n\<close> on a node id: true for \<open>None\<close> and for the id 0.\<close>

definition falsy_id :: "node_id option \<Rightarrow> bool" where
  "falsy_id n = (n = None \<or> n = Some 0)"

text \<open>The two queries. A search that never ends leaves the query without a value.\<close>

definition find_short_path ::
  "(loc \<Rightarrow> loc \<Rightarrow> real) \<Rightarrow> aux_structures \<Rightarrow> loc \<Rightarrow> loc \<Rightarrow> (py_error + loc list option) option" where
  "find_short_path gc aux loc1 loc2 =
     (let n1 = get_nearest_node_id gc loc1 aux;
          n2 = get_nearest_node_id gc loc2 aux in
      if falsy_id n1 \<or> falsy_id n2 then Some (Inr None)
      else if n1 = n2 then
        (case lat_lon_of aux (the n1) of Inl e \<Rightarrow> Some (Inl e) | Inr l \<Rightarrow> Some (Inr (Some [l])))
      else
        (case uniform_cost_search gc (the n1) (the n2) (neighbors_of aux) (short_cost gc aux) aux True of
           None \<Rightarrow> None
         | Some (Inl e) \<Rightarrow> Some (Inl e)
         | Some (Inr nodes_path) \<Rightarrow> Some (convert_nodes_path_to_loc_path nodes_path aux)))"

definition find_fast_path ::
  "(loc \<Rightarrow> loc \<Rightarrow> real) \<Rightarrow> aux_structures \<Rightarrow> loc \<Rightarrow> loc \<Rightarrow> (py_error + loc list option) option" where
  "find_fast_path gc aux loc1 loc2 =
     (let n1 = get_nearest_node_id gc loc1 aux;
          n2 = get_nearest_node_id gc loc2 aux in
      if falsy_id n1 \<or> falsy_id n2 then Some (Inr None)
      else if n1 = n2 then
        (case lat_lon_of aux (the n1) of Inl e \<Rightarrow> Some (Inl e) | Inr l \<Rightarrow> Some (Inr (Some [l])))
      else
        (case uniform_cost_search gc (the n1) (the n2) (neighbors_of aux) (fast_cost gc aux) aux False of
           None \<Rightarrow> None
         | Some (Inl e) \<Rightarrow> Some (Inl e)
         | Some (Inr nodes_path) \<Rightarrow> Some (convert_nodes_path_to_loc_path nodes_path aux)))"

section \<open>Concrete inputs\<close>

text \<open>
  A stand-in for \<open>great_circle_distance\<close> at concrete inputs: the sum of the differences in
  latitude and in longitude. Like the geodesic primitive it is symmetric, non-negative, zero
  exactly between equal coordinates, and obeys the triangle inequality.
\<close>

definition flat_distance :: "loc \<Rightarrow> loc \<Rightarrow> real" where
  "flat_distance a b = \<bar>fst a - fst b\<bar> + \<bar>snd a - snd b\<bar>"

text \<open>A residential two-way street through the given nodes, and a node record without tags.\<close>

definition residential :: "node_id list \<Rightarrow> osm_way" where
  "residential ns = \<lparr>w_id = 1, w_nodes = ns, w_tags = [''highway'' \<mapsto> Str ''residential'']\<rparr>"

definition node_at :: "node_id \<Rightarrow> real \<Rightarrow> real \<Rightarrow> osm_node" where
  "node_at i la lo = \<lparr>n_id = i, n_lat = la, n_lon = lo, n_tags = Map.empty\<rparr>"

text \<open>The graph of the street 1 - 2 - 3 when the node stream describes 1 and 3 only.\<close>

definition gap_aux :: aux_structures where
  "gap_aux =
     \<lparr>entries = map_of
        [(1, \<lparr>lat = Some 0, lon = Some 0, tags = Some Map.empty, connected = [(2, Num 25)]\<rparr>),
         (2, \<lparr>lat = None, lon = None, tags = None, connected = [(3, Num 25), (1, Num 25)]\<rparr>),
         (3, \<lparr>lat = Some 0, lon = Some 1, tags = Some Map.empty, connected = [(2, Num 25)]\<rparr>)],
      locations = [((0, 0), 1), ((0, 1), 3)]\<rparr>"

text \<open>The graph of a street whose only node has the id 0.\<close>

definition zero_aux :: aux_structures where
  "zero_aux =
     \<lparr>entries = map_of
        [(0, \<lparr>lat = Some 0, lon = Some 0, tags = Some Map.empty, connected = []\<rparr>)],
      locations = [((0, 0), 0)]\<rparr>"

text \<open>A graph with the single edge 1 \<rightarrow> 2, whose cost is zero.\<close>

definition zero_neighbors :: "node_id \<Rightarrow> py_error + node_id list" where
  "zero_neighbors u = Inr (if u = 1 then [2] else [])"

definition zero_cost :: "node_id \<Rightarrow> node_id \<Rightarrow> py_error + real option" where
  "zero_cost u v = Inr (Some 0)"

section \<open>Describing the edges of a built graph\<close>

text \<open>The weight of \<open>u \<rightarrow> v\<close> in \<open>my_structure\<close> while the ways are read.\<close>

definition entry_weight :: "(node_id \<rightharpoonup> node_entry) \<Rightarrow> node_id \<Rightarrow> node_id \<Rightarrow> tag_value option" where
  "entry_weight S u v = (case S u of None \<Rightarrow> None | Some e \<Rightarrow> map_of (connected e) v)"

text \<open>The consecutive pairs of a node sequence.\<close>

definition consecutive :: "'a list \<Rightarrow> ('a \<times> 'a) list" where
  "consecutive xs = zip xs (tl xs)"

text \<open>
  The directed edges that the two loops over an accepted way write: each consecutive pair, and
  its reverse when the way is not one-way, whenever the source of the edge passes
  \<open>if prev_node_id:\<close>.
\<close>

definition way_edges :: "osm_way \<Rightarrow> (node_id \<times> node_id) set" where
  "way_edges way =
     {(u, v). u \<noteq> 0 \<and>
        ((u, v) \<in> set (consecutive (w_nodes way)) \<or>
         \<not> is_oneway way \<and> (v, u) \<in> set (consecutive (w_nodes way)))}"

text \<open>The pairs \<open>(prev_node_id, node)\<close> that one loop over a node sequence visits.\<close>

fun pairs_from :: "node_id option \<Rightarrow> node_id list \<Rightarrow> (node_id \<times> node_id) list" where
  "pairs_from prev [] = []"
| "pairs_from prev (n # rest) = (case prev of None \<Rightarrow> [] | Some p \<Rightarrow> [(p, n)]) @ pairs_from (Some n) rest"

text \<open>The graph of the two-way street 0 - 1: only the edge 1 \<rightarrow> 0 is recorded.\<close>

definition zero_one_aux :: aux_structures where
  "zero_one_aux =
     \<lparr>entries = map_of
        [(0, \<lparr>lat = Some 0, lon = Some 0, tags = Some Map.empty, connected = []\<rparr>),
         (1, \<lparr>lat = Some 0, lon = Some 1, tags = Some Map.empty, connected = [(0, Num 25)]\<rparr>)],
      locations = [((0, 0), 0), ((0, 1), 1)]\<rparr>"

(* DEFS-END *)

section \<open>The loop: invariants and termination\<close>

lemma search_loop_invariant:
  assumes run: "search_loop stepf st = Some r"
    and init: "I st"
    and keep: "\<And>s s'. I s \<Longrightarrow> stepf s = Continue s' \<Longrightarrow> I s'"
    and fin: "\<And>s. I s \<Longrightarrow> stepf s = Done r \<Longrightarrow> Q"
  shows Q
proof -
  have "stepf = stepf \<longrightarrow> r = r \<longrightarrow> I st \<longrightarrow> Q"
  proof (rule search_loop.raw_induct[where P = "\<lambda>f s x. f = stepf \<longrightarrow> x = r \<longrightarrow> I s \<longrightarrow> Q", OF _ run])
    fix loop f s x
    assume IH: "\<And>f' s' x'. loop f' s' = Some x' \<Longrightarrow> f' = stepf \<longrightarrow> x' = r \<longrightarrow> I s' \<longrightarrow> Q"
      and eq: "(case f s of Done r \<Rightarrow> Some r | Continue st' \<Rightarrow> loop f st') = Some x"
    show "f = stepf \<longrightarrow> x = r \<longrightarrow> I s \<longrightarrow> Q"
    proof (intro impI)
      assume f: "f = stepf" and x: "x = r" and I: "I s"
      show Q
      proof (cases "stepf s")
        case (Done r')
        with eq f x have "stepf s = Done r" by simp
        with I show ?thesis by (rule fin)
      next
        case (Continue s')
        with eq f have "loop stepf s' = Some x" by simp
        moreover from I Continue have "I s'" by (rule keep)
        ultimately show ?thesis using IH x by blast
      qed
    qed
  qed
  with init show ?thesis by simp
qed

lemma search_loop_terminates:
  assumes wf: "wf R"
    and init: "I st"
    and keep: "\<And>s s'. I s \<Longrightarrow> stepf s = Continue s' \<Longrightarrow> I s' \<and> (s', s) \<in> R"
  shows "\<exists>r. search_loop stepf st = Some r"
  using wf init
proof (induction st rule: wf_induct_rule)
  case (less s)
  show ?case
  proof (cases "stepf s")
    case (Done r)
    then show ?thesis by (subst search_loop.simps) simp
  next
    case (Continue s')
    with keep less.prems have "I s'" "(s', s) \<in> R" by blast+
    with less.IH obtain r where "search_loop stepf s' = Some r" by blast
    with Continue show ?thesis by (subst search_loop.simps) simp
  qed
qed



section \<open>Selecting the minimum and pushing neighbours\<close>

lemma route_nonempty: "route neighbors cost start p g \<Longrightarrow> p \<noteq> []"
  by (induction rule: route.induct) auto

lemma route_hd: "route neighbors cost start p g \<Longrightarrow> hd p = start"
  by (induction rule: route.induct) (auto simp: route_nonempty)

lemma scan_agenda_min_gen:
  assumes "scan_agenda prio xs mc mi (length pre) = Inr i"
    and "pre @ xs \<noteq> []"
    and "mc = None \<Longrightarrow> pre = []"
    and "\<And>m. mc = Some m \<Longrightarrow> mi < length pre \<and> prio (pre ! mi) = Inr m \<and>
           (\<forall>j<length pre. \<exists>f. prio (pre ! j) = Inr f \<and> m \<le> f)"
  shows "i < length (pre @ xs) \<and>
         (\<exists>m. prio ((pre @ xs) ! i) = Inr m \<and>
              (\<forall>j<length (pre @ xs). \<exists>f. prio ((pre @ xs) ! j) = Inr f \<and> m \<le> f))"
  using assms
proof (induction xs arbitrary: pre mc mi)
  case Nil
  then obtain m where "mc = Some m" by (cases mc) auto
  with Nil show ?case by auto
next
  case (Cons x xs)
  from Cons.prems(1) obtain f where f: "prio x = Inr f"
    by (cases "prio x") auto
  show ?case
  proof (cases "mc = None \<or> f < the mc")
    case True
    with Cons.prems(1) f
    have run: "scan_agenda prio xs (Some f) (length pre) (length (pre @ [x])) = Inr i" by simp
    have inv: "length pre < length (pre @ [x]) \<and> prio ((pre @ [x]) ! length pre) = Inr f \<and>
           (\<forall>j<length (pre @ [x]). \<exists>f'. prio ((pre @ [x]) ! j) = Inr f' \<and> f \<le> f')"
    proof (cases mc)
      case None
      with Cons.prems(3) have "pre = []" by simp
      with f show ?thesis by simp
    next
      case (Some m)
      with True have "f < m" by simp
      moreover from Cons.prems(4)[OF Some]
      have "\<forall>j<length pre. \<exists>f'. prio (pre ! j) = Inr f' \<and> m \<le> f'" by simp
      ultimately show ?thesis using f
        by (auto simp: nth_append less_Suc_eq)
    qed
    have "i < length ((pre @ [x]) @ xs) \<and>
         (\<exists>m. prio (((pre @ [x]) @ xs) ! i) = Inr m \<and>
              (\<forall>j<length ((pre @ [x]) @ xs). \<exists>f. prio (((pre @ [x]) @ xs) ! j) = Inr f \<and> m \<le> f))"
      by (rule Cons.IH[OF run]) (use inv in auto)
    then show ?thesis by simp
  next
    case False
    then obtain m where m: "mc = Some m" "m \<le> f" by (cases mc) auto
    with Cons.prems(1) f False
    have run: "scan_agenda prio xs mc mi (length (pre @ [x])) = Inr i" by simp
    from Cons.prems(4)[OF m(1)] m f
    have inv: "mi < length (pre @ [x]) \<and> prio ((pre @ [x]) ! mi) = Inr m \<and>
           (\<forall>j<length (pre @ [x]). \<exists>f'. prio ((pre @ [x]) ! j) = Inr f' \<and> m \<le> f')"
      by (auto simp: nth_append less_Suc_eq)
    have "i < length ((pre @ [x]) @ xs) \<and>
         (\<exists>m. prio (((pre @ [x]) @ xs) ! i) = Inr m \<and>
              (\<forall>j<length ((pre @ [x]) @ xs). \<exists>f. prio (((pre @ [x]) @ xs) ! j) = Inr f \<and> m \<le> f))"
      by (rule Cons.IH[OF run]) (use inv m in auto)
    then show ?thesis by simp
  qed
qed

lemma scan_agenda_min:
  assumes "scan_agenda prio agenda None 0 0 = Inr i" and "agenda \<noteq> []"
  shows "i < length agenda \<and>
         (\<exists>m. prio (agenda ! i) = Inr m \<and>
              (\<forall>pc\<in>set agenda. \<exists>f. prio pc = Inr f \<and> m \<le> f))"
proof -
  from scan_agenda_min_gen[of prio agenda None 0 "[]" i] assms
  have "i < length agenda \<and>
         (\<exists>m. prio (agenda ! i) = Inr m \<and>
              (\<forall>j<length agenda. \<exists>f. prio (agenda ! j) = Inr f \<and> m \<le> f))" by simp
  then show ?thesis by (metis in_set_conv_nth)
qed

lemma push_neighbors_set:
  "push_neighbors cost t pc E ns ag = Inr ag' \<Longrightarrow>
   set ag' = set ag \<union> {(fst pc @ [n], snd pc + c) | n c.
                          n \<in> set ns \<and> n \<notin> E \<and> cost t n = Inr (Some c) \<and> c \<noteq> 0}"
proof (induction ns arbitrary: ag)
  case Nil
  then show ?case by simp
next
  case (Cons n ns)
  show ?case
  proof (cases "n \<in> E")
    case True
    with Cons show ?thesis by auto
  next
    case False
    with Cons.prems obtain c where c: "cost t n = Inr c" by (cases "cost t n") auto
    show ?thesis
    proof (cases "truthy_cost c")
      case True
      then obtain r where r: "c = Some r" "r \<noteq> 0" by (auto simp: truthy_cost_def)
      with Cons.prems False c
      have "push_neighbors cost t pc E ns (ag @ [(fst pc @ [n], snd pc + r)]) = Inr ag'" by (simp add: truthy_cost_def)
      from Cons.IH[OF this] c r False show ?thesis by auto
    next
      case no: False
      with Cons.prems False c have "push_neighbors cost t pc E ns ag = Inr ag'" by simp
      from Cons.IH[OF this] c no False show ?thesis by (auto simp: truthy_cost_def)
    qed
  qed
qed



section \<open>Optimality of the returned path\<close>

lemma search_inv_init: "search_inv neighbors cost start ([([start], 0)], {})"
  by (simp add: search_inv_def route_start)

lemma search_step_Continue:
  assumes "search_step gc goal neighbors cost aux heuristic (ag, E) = Continue st'"
  shows "\<exists>i. ag \<noteq> [] \<and> scan_agenda (priority gc goal aux heuristic) ag None 0 0 = Inr i \<and>
           fst (ag ! i) \<noteq> [] \<and>
           (last (fst (ag ! i)) \<in> E \<and> st' = (take i ag @ drop (Suc i) ag, E) \<or>
            last (fst (ag ! i)) \<notin> E \<and> last (fst (ag ! i)) \<noteq> goal \<and>
            (\<exists>ns ag''. neighbors (last (fst (ag ! i))) = Inr ns \<and>
               push_neighbors cost (last (fst (ag ! i))) (ag ! i) (insert (last (fst (ag ! i))) E) ns
                 (take i ag @ drop (Suc i) ag) = Inr ag'' \<and>
               st' = (ag'', insert (last (fst (ag ! i))) E)))"
  using assms
  by (simp add: search_step_def Let_def split: if_splits sum.splits)

lemma search_step_Done_path:
  assumes "search_step gc goal neighbors cost aux heuristic (ag, E) = Done (Inr (Some p))"
  shows "\<exists>i. ag \<noteq> [] \<and> scan_agenda (priority gc goal aux heuristic) ag None 0 0 = Inr i \<and>
           p = fst (ag ! i) \<and> p \<noteq> [] \<and> last p \<notin> E \<and> last p = goal"
  using assms
  by (simp add: search_step_def Let_def split: if_splits sum.splits)

lemma set_remove_nth:
  "i < length ag \<Longrightarrow> set ag = insert (ag ! i) (set (take i ag @ drop (Suc i) ag))"
proof -
  assume "i < length ag"
  then have "ag = take i ag @ ag ! i # drop (Suc i) ag" by (rule id_take_nth_drop)
  then have "set ag = set (take i ag @ ag ! i # drop (Suc i) ag)" by simp
  then show ?thesis by simp
qed

lemma frontier_entry:
  assumes inv: "search_inv neighbors cost start (ag, E)"
    and cons: "\<And>p g v c. route neighbors cost start p g \<Longrightarrow>
                 usable_edge neighbors cost (last p) v c \<Longrightarrow> h (last p) \<le> c + h v"
    and q: "route neighbors cost start q gq"
    and out: "last q \<notin> E"
  shows "\<exists>pc\<in>set ag. snd pc + h (last (fst pc)) \<le> gq + h (last q)"
  using q out
proof (induction rule: route.induct)
  case route_start
  with inv obtain pc where "pc \<in> set ag" "last (fst pc) = start" "snd pc \<le> 0"
    by (auto simp: search_inv_def)
  then show ?case by (intro bexI[of _ pc]) auto
next
  case (route_step p g v c)
  show ?case
  proof (cases "last p \<in> E")
    case True
    with inv route_step obtain pc where "pc \<in> set ag" "last (fst pc) = v" "snd pc \<le> g + c"
      unfolding search_inv_def by (metis fst_conv snd_conv last_snoc)
    then show ?thesis by (intro bexI[of _ pc]) auto
  next
    case False
    with route_step.IH obtain pc where pc: "pc \<in> set ag" "snd pc + h (last (fst pc)) \<le> g + h (last p)"
      by blast
    from cons[OF route_step.hyps(1,2)] have "h (last p) \<le> c + h v" .
    with pc show ?thesis by (intro bexI[of _ pc]) auto
  qed
qed

lemma popped_is_optimal:
  assumes inv: "search_inv neighbors cost start (ag, E)"
    and cons: "\<And>p g v c. route neighbors cost start p g \<Longrightarrow>
                 usable_edge neighbors cost (last p) v c \<Longrightarrow> h (last p) \<le> c + h v"
    and prio: "\<And>p g. route neighbors cost start p g \<Longrightarrow> prio (p, g) = Inr (g + h (last p))"
    and scan: "scan_agenda prio ag None 0 0 = Inr i" and ne: "ag \<noteq> []"
    and out: "last (fst (ag ! i)) \<notin> E"
    and q: "route neighbors cost start q gq" and same: "last q = last (fst (ag ! i))"
  shows "snd (ag ! i) \<le> gq"
proof -
  from scan_agenda_min[OF scan ne] obtain m where i: "i < length ag"
    and m: "prio (ag ! i) = Inr m" and least: "\<forall>pc\<in>set ag. \<exists>f. prio pc = Inr f \<and> m \<le> f"
    by blast
  from inv have routes: "\<forall>pc\<in>set ag. route neighbors cost start (fst pc) (snd pc)"
    by (simp add: search_inv_def)
  from i routes have "route neighbors cost start (fst (ag ! i)) (snd (ag ! i))" by simp
  from prio[OF this] m have m_eq: "m = snd (ag ! i) + h (last (fst (ag ! i)))" by simp
  from out same have qout: "last q \<notin> E" by simp
  have "\<exists>pc\<in>set ag. snd pc + h (last (fst pc)) \<le> gq + h (last q)"
    using inv cons q qout by (rule frontier_entry)
  then obtain pc where pc: "pc \<in> set ag"
    and le: "snd pc + h (last (fst pc)) \<le> gq + h (last q)" by blast
  from routes pc have "route neighbors cost start (fst pc) (snd pc)" by blast
  from prio[OF this] have "prio pc = Inr (snd pc + h (last (fst pc)))" by simp
  with least pc have "m \<le> snd pc + h (last (fst pc))" by fastforce
  with le m_eq same show ?thesis by simp
qed



lemma search_inv_step:
  assumes inv: "search_inv neighbors cost start st"
    and cons: "\<And>p g v c. route neighbors cost start p g \<Longrightarrow>
                 usable_edge neighbors cost (last p) v c \<Longrightarrow> h (last p) \<le> c + h v"
    and prio: "\<And>p g. route neighbors cost start p g \<Longrightarrow>
                 priority gc goal aux heuristic (p, g) = Inr (g + h (last p))"
    and step: "search_step gc goal neighbors cost aux heuristic st = Continue st'"
  shows "search_inv neighbors cost start st'"
proof -
  obtain ag E where st: "st = (ag, E)" by (cases st)
  define rest where "rest i = take i ag @ drop (Suc i) ag" for i
  from search_step_Continue[OF step[unfolded st]] obtain i where ne: "ag \<noteq> []"
    and scan: "scan_agenda (priority gc goal aux heuristic) ag None 0 0 = Inr i"
    and cases: "last (fst (ag ! i)) \<in> E \<and> st' = (rest i, E) \<or>
            last (fst (ag ! i)) \<notin> E \<and> last (fst (ag ! i)) \<noteq> goal \<and>
            (\<exists>ns ag''. neighbors (last (fst (ag ! i))) = Inr ns \<and>
               push_neighbors cost (last (fst (ag ! i))) (ag ! i) (insert (last (fst (ag ! i))) E) ns
                 (rest i) = Inr ag'' \<and>
               st' = (ag'', insert (last (fst (ag ! i))) E))"
    unfolding rest_def by blast
  define pc where "pc = ag ! i"
  define t where "t = last (fst pc)"
  from scan_agenda_min[OF scan ne] have i: "i < length ag" by blast
  then have split: "set ag = insert pc (set (rest i))"
    unfolding pc_def rest_def by (rule set_remove_nth)
  from inv st have routes: "\<forall>x\<in>set ag. route neighbors cost start (fst x) (snd x)"
    and old2: "\<And>q gq v c. route neighbors cost start q gq \<Longrightarrow> last q \<in> E \<Longrightarrow>
          usable_edge neighbors cost (last q) v c \<Longrightarrow> v \<notin> E \<Longrightarrow>
          \<exists>x\<in>set ag. last (fst x) = v \<and> snd x \<le> gq + c"
    and old3: "start \<notin> E \<Longrightarrow> \<exists>x\<in>set ag. last (fst x) = start \<and> snd x \<le> 0"
    by (auto simp: search_inv_def)
  have keep: "x \<in> set (rest i)" if "x \<in> set ag" "last (fst x) \<noteq> t" for x
    using that split by (auto simp: t_def)
  from cases show ?thesis
  proof (elim disjE conjE exE)
    assume tE: "last (fst (ag ! i)) \<in> E" and st': "st' = (rest i, E)"
    then have tE': "t \<in> E" by (simp add: t_def pc_def)
    have 1: "\<forall>x\<in>set (rest i). route neighbors cost start (fst x) (snd x)"
      using routes split by auto
    have 2: "\<exists>x\<in>set (rest i). last (fst x) = v \<and> snd x \<le> gq + c"
      if "route neighbors cost start q gq" "last q \<in> E" "usable_edge neighbors cost (last q) v c" "v \<notin> E"
      for q gq v c
    proof -
      from old2[OF that] obtain x where x: "x \<in> set ag" "last (fst x) = v" "snd x \<le> gq + c" by blast
      with that(4) tE' have "last (fst x) \<noteq> t" by auto
      with x keep show ?thesis by blast
    qed
    have 3: "\<exists>x\<in>set (rest i). last (fst x) = start \<and> snd x \<le> 0" if "start \<notin> E"
    proof -
      from old3[OF that] obtain x where x: "x \<in> set ag" "last (fst x) = start" "snd x \<le> 0" by blast
      with that tE' have "last (fst x) \<noteq> t" by auto
      with x keep show ?thesis by blast
    qed
    from 1 2 3 show ?thesis unfolding st' search_inv_def fst_conv snd_conv by blast
  next
    fix ns ag''
    assume tE: "last (fst (ag ! i)) \<notin> E"
      and nb: "neighbors (last (fst (ag ! i))) = Inr ns"
      and push: "push_neighbors cost (last (fst (ag ! i))) (ag ! i) (insert (last (fst (ag ! i))) E) ns
                 (rest i) = Inr ag''"
      and st': "st' = (ag'', insert (last (fst (ag ! i))) E)"
    from tE have tE': "t \<notin> E" by (simp add: t_def pc_def)
    from nb have nb': "neighbors t = Inr ns" by (simp add: t_def pc_def)
    from st' have st'': "st' = (ag'', insert t E)" by (simp add: t_def pc_def)
    from push_neighbors_set[OF push]
    have new: "set ag'' = set (rest i) \<union> {(fst pc @ [n], snd pc + c) | n c.
                          n \<in> set ns \<and> n \<notin> insert t E \<and> cost t n = Inr (Some c) \<and> c \<noteq> 0}"
      by (simp add: t_def pc_def)
    from routes i have pc_route: "route neighbors cost start (fst pc) (snd pc)"
      by (simp add: pc_def)
    have best: "snd pc \<le> gq" if "route neighbors cost start q gq" "last q = t" for q gq
      unfolding pc_def
      using inv[unfolded st] cons prio scan ne tE that(1)
    proof (rule popped_is_optimal)
      show "last q = last (fst (ag ! i))" using that(2) by (simp add: t_def pc_def)
    qed
    have 1: "\<forall>x\<in>set ag''. route neighbors cost start (fst x) (snd x)"
    proof
      fix x assume "x \<in> set ag''"
      with new consider "x \<in> set (rest i)"
        | n c where "x = (fst pc @ [n], snd pc + c)" "n \<in> set ns" "cost t n = Inr (Some c)" "c \<noteq> 0"
        by auto
      then show "route neighbors cost start (fst x) (snd x)"
      proof cases
        case 1
        with routes split show ?thesis by auto
      next
        case 2
        with nb' have "usable_edge neighbors cost (last (fst pc)) n c"
          by (auto simp: usable_edge_def t_def)
        with pc_route 2(1) show ?thesis by (simp add: route_step)
      qed
    qed
    have 2: "\<exists>x\<in>set ag''. last (fst x) = v \<and> snd x \<le> gq + c"
      if q: "route neighbors cost start q gq" and qin: "last q \<in> insert t E"
        and e: "usable_edge neighbors cost (last q) v c" and vout: "v \<notin> insert t E"
      for q gq v c
    proof (cases "last q = t")
      case True
      with e nb' have "v \<in> set ns" "cost t v = Inr (Some c)" "c \<noteq> 0"
        by (auto simp: usable_edge_def)
      with vout new have "(fst pc @ [v], snd pc + c) \<in> set ag''" by blast
      moreover from best[OF q True] have "snd pc + c \<le> gq + c" by simp
      ultimately show ?thesis by (intro bexI[of _ "(fst pc @ [v], snd pc + c)"]) auto
    next
      case False
      with qin have "last q \<in> E" by simp
      moreover from vout have "v \<notin> E" "v \<noteq> t" by auto
      ultimately obtain x where x: "x \<in> set ag" "last (fst x) = v" "snd x \<le> gq + c"
        using old2[OF q _ e] by blast
      with \<open>v \<noteq> t\<close> keep have "x \<in> set (rest i)" by blast
      with new x show ?thesis by blast
    qed
    have 3: "\<exists>x\<in>set ag''. last (fst x) = start \<and> snd x \<le> 0" if "start \<notin> insert t E"
    proof -
      from that have "start \<notin> E" "start \<noteq> t" by auto
      with old3 obtain x where x: "x \<in> set ag" "last (fst x) = start" "snd x \<le> 0" by blast
      with \<open>start \<noteq> t\<close> keep have "x \<in> set (rest i)" by blast
      with new x show ?thesis by blast
    qed
    from 1 2 3 show ?thesis unfolding st'' search_inv_def fst_conv snd_conv by blast
  qed
qed

lemma search_result_optimal:
  assumes inv: "search_inv neighbors cost start st"
    and cons: "\<And>p g v c. route neighbors cost start p g \<Longrightarrow>
                 usable_edge neighbors cost (last p) v c \<Longrightarrow> h (last p) \<le> c + h v"
    and prio: "\<And>p g. route neighbors cost start p g \<Longrightarrow>
                 priority gc goal aux heuristic (p, g) = Inr (g + h (last p))"
    and step: "search_step gc goal neighbors cost aux heuristic st = Done (Inr (Some p))"
  shows "\<exists>g. route neighbors cost start p g \<and> last p = goal \<and>
             (\<forall>q gq. route neighbors cost start q gq \<and> last q = goal \<longrightarrow> g \<le> gq)"
proof -
  obtain ag E where st: "st = (ag, E)" by (cases st)
  from search_step_Done_path[OF step[unfolded st]] obtain i where ne: "ag \<noteq> []"
    and scan: "scan_agenda (priority gc goal aux heuristic) ag None 0 0 = Inr i"
    and p: "p = fst (ag ! i)" "last p \<notin> E" "last p = goal" by blast
  from scan_agenda_min[OF scan ne] have i: "i < length ag" by blast
  with inv st p have r: "route neighbors cost start p (snd (ag ! i))"
    by (simp add: search_inv_def)
  have "snd (ag ! i) \<le> gq" if "route neighbors cost start q gq" "last q = goal" for q gq
    using inv[unfolded st] cons prio scan ne p(2)[unfolded p(1)] that(1)
  proof (rule popped_is_optimal)
    show "last q = last (fst (ag ! i))" using that(2) p by simp
  qed
  with r p show ?thesis by blast
qed

lemma uniform_cost_search_optimal:
  assumes cons: "\<And>p g v c. route neighbors cost start p g \<Longrightarrow>
                 usable_edge neighbors cost (last p) v c \<Longrightarrow> h (last p) \<le> c + h v"
    and prio: "\<And>p g. route neighbors cost start p g \<Longrightarrow>
                 priority gc goal aux heuristic (p, g) = Inr (g + h (last p))"
    and run: "uniform_cost_search gc start goal neighbors cost aux heuristic = Some (Inr (Some p))"
  shows "\<exists>g. route neighbors cost start p g \<and> last p = goal \<and>
             (\<forall>q gq. route neighbors cost start q gq \<and> last q = goal \<longrightarrow> g \<le> gq)"
  using run[unfolded uniform_cost_search_def]
proof (rule search_loop_invariant[where I = "search_inv neighbors cost start"])
  show "search_inv neighbors cost start ([([start], 0)], {})" by (rule search_inv_init)
next
  fix s s'
  assume a: "search_inv neighbors cost start s"
    and b: "search_step gc goal neighbors cost aux heuristic s = Continue s'"
  show "search_inv neighbors cost start s'"
    using a cons prio b by (rule search_inv_step)
next
  fix s
  assume a: "search_inv neighbors cost start s"
    and b: "search_step gc goal neighbors cost aux heuristic s = Done (Inr (Some p))"
  show "\<exists>g. route neighbors cost start p g \<and> last p = goal \<and>
             (\<forall>q gq. route neighbors cost start q gq \<and> last q = goal \<longrightarrow> g \<le> gq)"
    using a cons prio b by (rule search_result_optimal)
qed

section \<open>The edges written by the ways\<close>

lemma edge_weight_entries: "edge_weight aux u v = entry_weight (entries aux) u v"
  by (simp add: edge_weight_def entry_weight_def)

lemma entry_weight_add_connection:
  "entry_weight (add_connection s p n S) u v =
     (if u = p \<and> v = n then Some s else entry_weight S u v)"
  by (auto simp: entry_weight_def add_connection_def update_conv' split: option.splits)

lemma dom_add_connection: "dom (add_connection s p n S) = insert p (dom S)"
  by (auto simp: add_connection_def split: option.splits)

lemma pairs_from_Some: "pairs_from (Some p) ns = consecutive (p # ns)"
  by (induction ns arbitrary: p) (auto simp: consecutive_def)

lemma pairs_from_None: "pairs_from None ns = consecutive ns"
  by (cases ns) (auto simp: pairs_from_Some consecutive_def)

lemma walk_nodes_weight:
  "entry_weight (fst (walk_nodes s ns prev st)) u v =
     (if u \<noteq> 0 \<and> (u, v) \<in> set (pairs_from prev ns) then Some s else entry_weight (fst st) u v)"
proof (induction ns arbitrary: prev st)
  case Nil
  then show ?case by simp
next
  case (Cons n ns)
  show ?case
    by (cases prev) (auto simp: Cons.IH entry_weight_add_connection)
qed

lemma walk_nodes_connected: "snd (walk_nodes s ns prev st) = snd st \<union> set ns"
  by (induction ns arbitrary: prev st) auto

lemma walk_nodes_dom:
  "dom (fst (walk_nodes s ns prev st)) = dom (fst st) \<union> {u. u \<noteq> 0 \<and> u \<in> fst ` set (pairs_from prev ns)}"
proof (induction ns arbitrary: prev st)
  case Nil
  then show ?case by simp
next
  case (Cons n ns)
  show ?case
    by (cases prev) (auto simp: Cons.IH dom_add_connection)
qed

lemma consecutive_iff:
  "(a, b) \<in> set (consecutive xs) \<longleftrightarrow> (\<exists>i. Suc i < length xs \<and> xs ! i = a \<and> xs ! Suc i = b)"
proof
  assume "(a, b) \<in> set (consecutive xs)"
  then obtain n where "xs ! n = a" "tl xs ! n = b" "n < length xs" "n < length (tl xs)"
    by (auto simp: consecutive_def in_set_zip)
  then show "\<exists>i. Suc i < length xs \<and> xs ! i = a \<and> xs ! Suc i = b"
    by (intro exI[of _ n]) (auto simp: nth_tl)
next
  assume "\<exists>i. Suc i < length xs \<and> xs ! i = a \<and> xs ! Suc i = b"
  then obtain i where "Suc i < length xs" "xs ! i = a" "xs ! Suc i = b" by blast
  then have "xs ! i = a \<and> tl xs ! i = b \<and> i < length xs \<and> i < length (tl xs)"
    by (auto simp: nth_tl)
  then show "(a, b) \<in> set (consecutive xs)"
    unfolding consecutive_def in_set_zip by (intro exI[of _ i]) auto
qed

lemma consecutive_rev: "(a, b) \<in> set (consecutive (rev xs)) \<longleftrightarrow> (b, a) \<in> set (consecutive xs)"
proof -
  have one: "(b, a) \<in> set (consecutive ys)" if "(a, b) \<in> set (consecutive (rev ys))" for a b and ys :: "'a list"
  proof -
    from that obtain i where i: "Suc i < length ys" "rev ys ! i = a" "rev ys ! Suc i = b"
      by (auto simp: consecutive_iff)
    let ?j = "length ys - Suc (Suc i)"
    from i have "Suc ?j < length ys" "ys ! ?j = b" "ys ! Suc ?j = a"
      by (auto simp: rev_nth Suc_diff_Suc)
    then show ?thesis unfolding consecutive_iff by blast
  qed
  show ?thesis using one[of a b xs] one[of b a "rev xs"] by auto
qed

lemma fst_consecutive_rev: "fst ` set (consecutive (rev xs)) = snd ` set (consecutive xs)"
proof (intro set_eqI iffI)
  fix x assume "x \<in> fst ` set (consecutive (rev xs))"
  then obtain b where "(x, b) \<in> set (consecutive (rev xs))" by auto
  then have "(b, x) \<in> set (consecutive xs)" by (simp add: consecutive_rev)
  then show "x \<in> snd ` set (consecutive xs)" by force
next
  fix x assume "x \<in> snd ` set (consecutive xs)"
  then obtain b where "(b, x) \<in> set (consecutive xs)" by auto
  then have "(x, b) \<in> set (consecutive (rev xs))" by (simp add: consecutive_rev)
  then show "x \<in> fst ` set (consecutive (rev xs))" by force
qed

lemma consecutive_in_set: "(a, b) \<in> set (consecutive xs) \<Longrightarrow> a \<in> set xs \<and> b \<in> set xs"
  by (auto simp: consecutive_iff)


lemma valid_way_speed_limit: "valid_way way \<Longrightarrow> \<exists>s. speed_limit_of way = Inr s"
  by (auto simp: valid_way_def speed_limit_of_def ALLOWED_HIGHWAY_TYPES_def
      DEFAULT_SPEED_LIMIT_MPH_def split: option.splits tag_value.splits)

lemma add_way_total: "\<exists>st'. add_way way st = Inr st'"
proof (cases "valid_way way")
  case True
  from valid_way_speed_limit[OF this] obtain s where "speed_limit_of way = Inr s" ..
  with True show ?thesis by (simp add: add_way_def Let_def)
next
  case False
  then show ?thesis by (simp add: add_way_def)
qed

lemma add_way_invalid: "\<not> valid_way way \<Longrightarrow> add_way way st = Inr st"
  by (simp add: add_way_def)

lemma add_way_valid:
  assumes "valid_way way" and "speed_limit_of way = Inr s" and "add_way way st = Inr st'"
  shows "entry_weight (fst st') u v =
           (if (u, v) \<in> way_edges way then Some s else entry_weight (fst st) u v)"
    and "snd st' = snd st \<union> set (w_nodes way)"
    and "dom (fst st') = dom (fst st) \<union> fst ` way_edges way"
proof -
  show "entry_weight (fst st') u v =
           (if (u, v) \<in> way_edges way then Some s else entry_weight (fst st) u v)"
    using assms
    by (auto simp: add_way_def Let_def walk_nodes_weight pairs_from_None way_edges_def
        consecutive_rev split: if_splits)
  show "snd st' = snd st \<union> set (w_nodes way)"
    using assms by (auto simp: add_way_def Let_def walk_nodes_connected split: if_splits)
  have img: "fst ` way_edges way =
      {u. u \<noteq> 0 \<and> u \<in> fst ` set (consecutive (w_nodes way))} \<union>
      (if \<not> is_oneway way then {u. u \<noteq> 0 \<and> u \<in> snd ` set (consecutive (w_nodes way))} else {})"
  proof (intro set_eqI iffI)
    fix u assume "u \<in> fst ` way_edges way"
    then obtain v where "(u, v) \<in> way_edges way" by auto
    then have "u \<noteq> 0" and "(u, v) \<in> set (consecutive (w_nodes way)) \<or>
        \<not> is_oneway way \<and> (v, u) \<in> set (consecutive (w_nodes way))"
      by (auto simp: way_edges_def)
    then show "u \<in> {u. u \<noteq> 0 \<and> u \<in> fst ` set (consecutive (w_nodes way))} \<union>
      (if \<not> is_oneway way then {u. u \<noteq> 0 \<and> u \<in> snd ` set (consecutive (w_nodes way))} else {})"
      by force
  next
    fix u assume "u \<in> {u. u \<noteq> 0 \<and> u \<in> fst ` set (consecutive (w_nodes way))} \<union>
      (if \<not> is_oneway way then {u. u \<noteq> 0 \<and> u \<in> snd ` set (consecutive (w_nodes way))} else {})"
    then have "\<exists>v. (u, v) \<in> way_edges way"
      by (auto simp: way_edges_def split: if_splits)
    then show "u \<in> fst ` way_edges way" by force
  qed
  from assms have "st' = (if \<not> is_oneway way
      then walk_nodes s (rev (w_nodes way)) None (walk_nodes s (w_nodes way) None st)
      else walk_nodes s (w_nodes way) None st)"
    by (auto simp: add_way_def Let_def split: if_splits)
  then have "dom (fst st') = dom (fst st) \<union>
      ({u. u \<noteq> 0 \<and> u \<in> fst ` set (consecutive (w_nodes way))} \<union>
      (if \<not> is_oneway way then {u. u \<noteq> 0 \<and> u \<in> snd ` set (consecutive (w_nodes way))} else {}))"
    by (simp add: walk_nodes_dom pairs_from_None fst_consecutive_rev Un_assoc)
  with img show "dom (fst st') = dom (fst st) \<union> fst ` way_edges way" by simp
qed


lemma add_way_frame:
  assumes "add_way way st = Inr st'" and "valid_way way \<longrightarrow> (u, v) \<notin> way_edges way"
  shows "entry_weight (fst st') u v = entry_weight (fst st) u v"
proof (cases "valid_way way")
  case True
  from valid_way_speed_limit[OF this] obtain s where s: "speed_limit_of way = Inr s" ..
  from add_way_valid(1)[OF True s assms(1)] assms(2) True show ?thesis by simp
next
  case False
  with assms(1) show ?thesis by (simp add: add_way_def)
qed

lemma add_ways_total: "\<exists>st'. add_ways ws st = Inr st'"
proof (induction ws arbitrary: st)
  case Nil
  show ?case by simp
next
  case (Cons w ws)
  from add_way_total obtain st1 where "add_way w st = Inr st1" by blast
  with Cons show ?case by simp
qed

lemma add_ways_ConsD:
  "add_ways (w # ws) st = Inr st' \<Longrightarrow> \<exists>st1. add_way w st = Inr st1 \<and> add_ways ws st1 = Inr st'"
  by (auto split: sum.splits)

lemma add_ways_appendD:
  "add_ways (xs @ ys) st = Inr st' \<Longrightarrow> \<exists>st1. add_ways xs st = Inr st1 \<and> add_ways ys st1 = Inr st'"
proof (induction xs arbitrary: st)
  case Nil
  then show ?case by simp
next
  case (Cons x xs)
  then show ?case by (auto split: sum.splits)
qed

lemma add_ways_filter: "add_ways (filter valid_way ws) st = add_ways ws st"
proof (induction ws arbitrary: st)
  case Nil
  show ?case by simp
next
  case (Cons w ws)
  show ?case
  proof (cases "valid_way w")
    case True
    then show ?thesis by (simp add: Cons.IH split: sum.splits)
  next
    case False
    then show ?thesis by (simp add: Cons.IH add_way_invalid)
  qed
qed

lemma add_ways_frame:
  assumes "add_ways ws st = Inr st'"
    and "\<forall>w\<in>set ws. valid_way w \<longrightarrow> (u, v) \<notin> way_edges w"
  shows "entry_weight (fst st') u v = entry_weight (fst st) u v"
  using assms
proof (induction ws arbitrary: st)
  case Nil
  then show ?case by simp
next
  case (Cons w ws)
  from add_ways_ConsD[OF Cons.prems(1)] obtain st1
    where 1: "add_way w st = Inr st1" and 2: "add_ways ws st1 = Inr st'" by blast
  from Cons.prems(2) have "entry_weight (fst st1) u v = entry_weight (fst st) u v"
    by (intro add_way_frame[OF 1]) simp
  moreover from Cons.prems(2) have "entry_weight (fst st') u v = entry_weight (fst st1) u v"
    by (intro Cons.IH[OF 2]) simp
  ultimately show ?case by simp
qed

lemma add_ways_origin:
  assumes "add_ways ws st = Inr st'" and "entry_weight (fst st') u v = Some x"
  shows "entry_weight (fst st) u v = Some x \<or>
         (\<exists>w\<in>set ws. valid_way w \<and> (u, v) \<in> way_edges w \<and> speed_limit_of w = Inr x)"
  using assms
proof (induction ws arbitrary: st)
  case Nil
  then show ?case by simp
next
  case (Cons w ws)
  from add_ways_ConsD[OF Cons.prems(1)] obtain st1
    where 1: "add_way w st = Inr st1" and 2: "add_ways ws st1 = Inr st'" by blast
  from Cons.IH[OF 2 Cons.prems(2)]
  consider "entry_weight (fst st1) u v = Some x"
    | "\<exists>w\<in>set ws. valid_way w \<and> (u, v) \<in> way_edges w \<and> speed_limit_of w = Inr x" by blast
  then show ?case
  proof cases
    case a: 1
    show ?thesis
    proof (cases "valid_way w \<and> (u, v) \<in> way_edges w")
      case True
      from valid_way_speed_limit True obtain s where s: "speed_limit_of w = Inr s" by blast
      from add_way_valid(1)[OF _ s 1, of u v] True a have "s = x" by simp
      with s True show ?thesis by auto
    next
      case False
      then have "valid_way w \<longrightarrow> (u, v) \<notin> way_edges w" by blast
      from add_way_frame[OF 1 this] a show ?thesis by simp
    qed
  next
    case 2
    then show ?thesis by auto
  qed
qed

lemma add_ways_last_writer:
  assumes run: "add_ways (ws1 @ w # ws2) st = Inr st'"
    and w: "valid_way w" "(u, v) \<in> way_edges w" "speed_limit_of w = Inr s"
    and later: "\<forall>w'\<in>set ws2. valid_way w' \<longrightarrow> (u, v) \<notin> way_edges w'"
  shows "entry_weight (fst st') u v = Some s"
proof -
  from add_ways_appendD[OF run] obtain st1 where 1: "add_ways ws1 st = Inr st1"
    and r: "add_ways (w # ws2) st1 = Inr st'" by blast
  from add_ways_ConsD[OF r] obtain st2 where 2: "add_way w st1 = Inr st2"
    and 3: "add_ways ws2 st2 = Inr st'" by blast
  from add_way_valid(1)[OF w(1) w(3) 2, of u v] w(2) have "entry_weight (fst st2) u v = Some s" by simp
  with add_ways_frame[OF 3 later] show ?thesis by simp
qed

lemma add_way_persist:
  assumes "add_way w st = Inr st'" and "entry_weight (fst st) u v \<noteq> None"
  shows "entry_weight (fst st') u v \<noteq> None"
proof (cases "valid_way w")
  case True
  from valid_way_speed_limit[OF this] obtain s where s: "speed_limit_of w = Inr s" ..
  from add_way_valid(1)[OF True s assms(1), of u v] assms(2) show ?thesis by simp
next
  case False
  with assms show ?thesis by (simp add: add_way_def)
qed

lemma add_ways_persist:
  assumes "add_ways ws st = Inr st'" and "entry_weight (fst st) u v \<noteq> None"
  shows "entry_weight (fst st') u v \<noteq> None"
  using assms
proof (induction ws arbitrary: st)
  case Nil
  then show ?case by simp
next
  case (Cons w ws)
  from add_ways_ConsD[OF Cons.prems(1)] obtain st1
    where 1: "add_way w st = Inr st1" and 2: "add_ways ws st1 = Inr st'" by blast
  from add_way_persist[OF 1 Cons.prems(2)] Cons.IH[OF 2] show ?case by blast
qed

lemma add_ways_exists:
  assumes run: "add_ways ws st = Inr st'" and w: "w \<in> set ws" "valid_way w" "(u, v) \<in> way_edges w"
  shows "entry_weight (fst st') u v \<noteq> None"
proof -
  from w(1) obtain ws1 ws2 where ws: "ws = ws1 @ w # ws2" by (auto simp: in_set_conv_decomp)
  from add_ways_appendD[OF run[unfolded ws]] obtain st1 where 1: "add_ways ws1 st = Inr st1"
    and r: "add_ways (w # ws2) st1 = Inr st'" by blast
  from add_ways_ConsD[OF r] obtain st2 where 2: "add_way w st1 = Inr st2"
    and 3: "add_ways ws2 st2 = Inr st'" by blast
  from valid_way_speed_limit[OF w(2)] obtain s where s: "speed_limit_of w = Inr s" ..
  from add_way_valid(1)[OF w(2) s 2, of u v] w(3) have "entry_weight (fst st2) u v \<noteq> None" by simp
  with add_ways_persist[OF 3] show ?thesis by blast
qed

lemma add_ways_connected:
  assumes "add_ways ws st = Inr st'"
  shows "snd st' = snd st \<union> (\<Union>w\<in>{w \<in> set ws. valid_way w}. set (w_nodes w))"
  using assms
proof (induction ws arbitrary: st)
  case Nil
  then show ?case by simp
next
  case (Cons w ws)
  from add_ways_ConsD[OF Cons.prems(1)] obtain st1
    where 1: "add_way w st = Inr st1" and 2: "add_ways ws st1 = Inr st'" by blast
  have "snd st1 = snd st \<union> (if valid_way w then set (w_nodes w) else {})"
  proof (cases "valid_way w")
    case True
    from valid_way_speed_limit[OF this] obtain s where s: "speed_limit_of w = Inr s" ..
    from add_way_valid(2)[OF True s 1] True show ?thesis by simp
  next
    case False
    with 1 show ?thesis by (simp add: add_way_def)
  qed
  with Cons.IH[OF 2] show ?case by auto
qed

lemma way_edges_nodes: "(u, v) \<in> way_edges w \<Longrightarrow> u \<in> set (w_nodes w) \<and> v \<in> set (w_nodes w)"
  by (auto simp: way_edges_def dest: consecutive_in_set)

lemma add_way_dom:
  assumes "add_way w st = Inr st1"
  shows "dom (fst st1) \<subseteq> dom (fst st) \<union> (if valid_way w then set (w_nodes w) else {})"
proof (cases "valid_way w")
  case True
  from valid_way_speed_limit[OF this] obtain s where s: "speed_limit_of w = Inr s" ..
  have "fst ` way_edges w \<subseteq> set (w_nodes w)" by (auto dest: way_edges_nodes)
  with add_way_valid(3)[OF True s assms] True show ?thesis by auto
next
  case False
  with assms show ?thesis by (simp add: add_way_def)
qed

lemma add_ways_dom:
  assumes "add_ways ws st = Inr st'" and "x \<in> dom (fst st')"
  shows "x \<in> dom (fst st) \<or> (\<exists>w\<in>set ws. valid_way w \<and> x \<in> set (w_nodes w))"
  using assms
proof (induction ws arbitrary: st)
  case Nil
  then show ?case by simp
next
  case (Cons w ws)
  from add_ways_ConsD[OF Cons.prems(1)] obtain st1
    where 1: "add_way w st = Inr st1" and 2: "add_ways ws st1 = Inr st'" by blast
  from Cons.IH[OF 2 Cons.prems(2)]
  consider "x \<in> dom (fst st1)" | "\<exists>w\<in>set ws. valid_way w \<and> x \<in> set (w_nodes w)" by blast
  then show ?case
  proof cases
    case 1
    with add_way_dom[OF \<open>add_way w st = Inr st1\<close>]
    have "x \<in> dom (fst st) \<or> valid_way w \<and> x \<in> set (w_nodes w)"
      by (cases "valid_way w") auto
    then show ?thesis by auto
  next
    case 2
    then show ?thesis by auto
  qed
qed

section \<open>The node pass and the finished graph\<close>

lemma entry_weight_add_node:
  "entry_weight (entries (add_node C n a)) u v = entry_weight (entries a) u v"
  by (auto simp: add_node_def entry_weight_def split: option.splits)

lemma entry_weight_add_nodes:
  "entry_weight (entries (add_nodes C ns a)) u v = entry_weight (entries a) u v"
  by (induction ns arbitrary: a) (simp_all add: entry_weight_add_node)

lemma dom_add_node:
  "dom (entries (add_node C n a)) = dom (entries a) \<union> (if n_id n \<in> C then {n_id n} else {})"
  by (auto simp: add_node_def split: option.splits)

lemma dom_add_nodes:
  "dom (entries (add_nodes C ns a)) = dom (entries a) \<union> (n_id ` set ns \<inter> C)"
  by (induction ns arbitrary: a) (auto simp: dom_add_node split: if_splits)

lemma update_values: "snd ` set (AList.update k v al) \<subseteq> insert v (snd ` set al)"
  by (induction al) auto

lemma locations_add_node:
  "snd ` set (locations (add_node C n a)) \<subseteq> snd ` set (locations a) \<union> ({n_id n} \<inter> C)"
  using update_values[of "(n_lat n, n_lon n)" "n_id n" "locations a"]
  by (auto simp: add_node_def)

lemma locations_add_nodes:
  "snd ` set (locations (add_nodes C ns a)) \<subseteq> snd ` set (locations a) \<union> (n_id ` set ns \<inter> C)"
proof (induction ns arbitrary: a)
  case Nil
  show ?case by simp
next
  case (Cons n ns)
  from Cons.IH[of "add_node C n a"] locations_add_node[of C n a]
  show ?case by auto
qed

lemma build_total: "\<exists>aux. build_auxiliary_structures ns ws = Inr aux"
proof -
  from add_ways_total obtain st where "add_ways ws (Map.empty, {}) = Inr st" by blast
  then show ?thesis by (simp add: build_auxiliary_structures_def)
qed

lemma build_result:
  assumes "build_auxiliary_structures ns ws = Inr aux" and "add_ways ws (Map.empty, {}) = Inr st"
  shows "aux = add_nodes (snd st) ns \<lparr>entries = fst st, locations = []\<rparr>"
  using assms by (simp add: build_auxiliary_structures_def)

lemma build_edge_weight:
  assumes "build_auxiliary_structures ns ws = Inr aux" and "add_ways ws (Map.empty, {}) = Inr st"
  shows "edge_weight aux u v = entry_weight (fst st) u v"
  by (simp add: build_result[OF assms] edge_weight_entries entry_weight_add_nodes)

lemma build_dom:
  assumes "build_auxiliary_structures ns ws = Inr aux" and "add_ways ws (Map.empty, {}) = Inr st"
  shows "dom (entries aux) = dom (fst st) \<union> (n_id ` set ns \<inter> snd st)"
  by (simp add: build_result[OF assms] dom_add_nodes)

lemma build_locations:
  assumes "build_auxiliary_structures ns ws = Inr aux" and "add_ways ws (Map.empty, {}) = Inr st"
  shows "snd ` set (locations aux) \<subseteq> snd st"
  using locations_add_nodes[of "snd st" ns "\<lparr>entries = fst st, locations = []\<rparr>"]
  by (auto simp: build_result[OF assms])

lemma entry_weight_empty: "entry_weight Map.empty u v = None"
  by (simp add: entry_weight_def)

lemma build_filter:
  "build_auxiliary_structures ns (filter valid_way ws) = build_auxiliary_structures ns ws"
  by (simp add: build_auxiliary_structures_def add_ways_filter)

lemma build_edge_origin:
  assumes "build_auxiliary_structures ns ws = Inr aux" and "edge_weight aux u v = Some x"
  shows "\<exists>w\<in>set ws. valid_way w \<and> (u, v) \<in> way_edges w \<and> speed_limit_of w = Inr x"
proof -
  from add_ways_total obtain st where st: "add_ways ws (Map.empty, {}) = Inr st" by blast
  note ew = build_edge_weight[OF assms(1) st]
  from ew assms(2) have "entry_weight (fst st) u v = Some x" by simp
  from add_ways_origin[OF st this] show ?thesis by (simp add: entry_weight_empty)
qed

lemma build_edge_last_writer:
  assumes "build_auxiliary_structures ns (ws1 @ w # ws2) = Inr aux"
    and "valid_way w" "(u, v) \<in> way_edges w" "speed_limit_of w = Inr s"
    and "\<forall>w'\<in>set ws2. valid_way w' \<longrightarrow> (u, v) \<notin> way_edges w'"
  shows "edge_weight aux u v = Some s"
proof -
  from add_ways_total obtain st where st: "add_ways (ws1 @ w # ws2) (Map.empty, {}) = Inr st"
    by blast
  note ew = build_edge_weight[OF assms(1) st]
  from add_ways_last_writer[OF st assms(2-5)] ew show ?thesis by simp
qed

lemma build_edge_exists:
  assumes "build_auxiliary_structures ns ws = Inr aux"
    and "w \<in> set ws" "valid_way w" "(u, v) \<in> way_edges w"
  shows "edge_weight aux u v \<noteq> None"
proof -
  from add_ways_total obtain st where st: "add_ways ws (Map.empty, {}) = Inr st" by blast
  note ew = build_edge_weight[OF assms(1) st]
  from add_ways_exists[OF st assms(2-4)] ew show ?thesis by simp
qed

lemma build_unreferenced_node:
  assumes "build_auxiliary_structures ns ws = Inr aux"
    and "\<forall>w\<in>set ws. valid_way w \<longrightarrow> n \<notin> set (w_nodes w)"
  shows "entries aux n = None" and "edge_weight aux u n = None" and "n \<notin> snd ` set (locations aux)"
proof -
  from add_ways_total obtain st where st: "add_ways ws (Map.empty, {}) = Inr st" by blast
  note ew = build_edge_weight[OF assms(1) st]
  note d = build_dom[OF assms(1) st]
  note l = build_locations[OF assms(1) st]
  from add_ways_connected[OF st] assms(2) have c: "n \<notin> snd st" by auto
  from add_ways_dom[OF st, of n] assms(2) have "n \<notin> dom (fst st)" by auto
  with d c have "n \<notin> dom (entries aux)" by auto
  then show "entries aux n = None" by auto
  from l c show "n \<notin> snd ` set (locations aux)" by auto
  show "edge_weight aux u n = None"
  proof (cases "edge_weight aux u n")
    case None
    then show ?thesis .
  next
    case (Some x)
    from build_edge_origin[OF assms(1) Some] obtain w where "w \<in> set ws" "valid_way w" "(u, n) \<in> way_edges w"
      by blast
    with assms(2) way_edges_nodes[of u n w] show ?thesis by blast
  qed
qed

section \<open>Evaluating the code at concrete inputs\<close>

lemmas build_defs = build_auxiliary_structures_def add_way_def valid_way_def speed_limit_of_def
  ALLOWED_HIGHWAY_TYPES_def DEFAULT_SPEED_LIMIT_MPH_def is_oneway_def add_connection_def
  add_node_def residential_def node_at_def

lemmas search_defs = uniform_cost_search_def search_loop.simps search_step_def priority_def
  truthy_cost_def Let_def get_lat_lon_def call_distance_def

lemma flat_distance_metric:
  "flat_distance a b = flat_distance b a"
  "0 \<le> flat_distance a b"
  "(flat_distance a b = 0) = (a = b)"
  "flat_distance a c \<le> flat_distance a b + flat_distance b c"
  by (auto simp: flat_distance_def prod_eq_iff)

lemma gap_aux_built:
  "build_auxiliary_structures [node_at 1 0 0, node_at 3 0 1] [residential [1, 2, 3]] = Inr gap_aux"
  by (simp add: build_defs gap_aux_def fun_eq_iff)

lemma zero_aux_built:
  "build_auxiliary_structures [node_at 0 0 0] [residential [0]] = Inr zero_aux"
  by (simp add: build_defs zero_aux_def fun_eq_iff)

text \<open>
  C2. The street 1 - 2 - 3 is accepted and the node stream describes only 1 and 3. The graph is
  built, and node 2 has an entry with its connections but without coordinates. A search from
  1 to 3 then does not skip the edge 1 \<rightarrow> 2: \<open>get_lat_lon\<close> finds the key 2,
  reads its missing \<open>'lat'\<close> and the whole search ends with KeyError, in the distance
  search and with the time cost alike.
\<close>

theorem missing_coordinate_fails_search:
  "build_auxiliary_structures [node_at 1 0 0, node_at 3 0 1] [residential [1, 2, 3]] = Inr gap_aux \<and>
   get_lat_lon 2 gap_aux = Inl KeyError \<and>
   find_short_path_nodes gc gap_aux 1 3 = Some (Inl KeyError) \<and>
   uniform_cost_search gc 1 3 (neighbors_of gap_aux) (fast_cost gc gap_aux) gap_aux False
     = Some (Inl KeyError) \<and>
   find_short_path flat_distance gap_aux (0, 0) (0, 1) = Some (Inl KeyError) \<and>
   find_fast_path flat_distance gap_aux (0, 0) (0, 1) = Some (Inl KeyError)"
proof -
  have "get_lat_lon 2 gap_aux = Inl KeyError"
    by (simp add: get_lat_lon_def gap_aux_def)
  moreover have "find_short_path_nodes gc gap_aux 1 3 = Some (Inl KeyError)"
    by (simp add: find_short_path_nodes_def search_defs neighbors_of_def short_cost_def gap_aux_def)
  moreover have "uniform_cost_search gc 1 3 (neighbors_of gap_aux) (fast_cost gc gap_aux) gap_aux False
     = Some (Inl KeyError)"
    by (simp add: search_defs neighbors_of_def fast_cost_def gap_aux_def)
  moreover have "find_short_path flat_distance gap_aux (0, 0) (0, 1) = Some (Inl KeyError)"
    by (simp add: find_short_path_def get_nearest_node_id_def falsy_id_def flat_distance_def
        search_defs neighbors_of_def short_cost_def gap_aux_def)
  moreover have "find_fast_path flat_distance gap_aux (0, 0) (0, 1) = Some (Inl KeyError)"
    by (simp add: find_fast_path_def get_nearest_node_id_def falsy_id_def flat_distance_def
        search_defs neighbors_of_def fast_cost_def gap_aux_def)
  ultimately show ?thesis using gap_aux_built by simp
qed

text \<open>
  C3. The edge 1 \<rightarrow> 2 has the computable cost zero. Expanding node 1 pushes nothing for the
  neighbour 2, because \<open>if c:\<close> is false for a cost of zero as it is for \<open>None\<close>, and the
  search from 1 to 2 ends without a path although the edge exists.
\<close>

theorem zero_cost_edge_not_pushed:
  "zero_cost 1 2 = Inr (Some 0) \<and>
   push_neighbors zero_cost 1 ([1], 0) {1} [2] [] = Inr [] \<and>
   uniform_cost_search gc 1 2 zero_neighbors zero_cost aux False = Some (Inr None)"
  by (simp add: search_defs zero_neighbors_def zero_cost_def)

text \<open>
  C4. In the graph of a street whose only node has the id 0, both coordinates of a query
  resolve to the node 0, so the claim promises the path of that single coordinate. Both
  queries return \<open>None\<close> instead: \<open>not n1\<close> is true for the id 0.
\<close>

theorem node_zero_query_not_found:
  "build_auxiliary_structures [node_at 0 0 0] [residential [0]] = Inr zero_aux \<and>
   get_nearest_node_id gc (0, 0) zero_aux = Some 0 \<and>
   lat_lon_of zero_aux 0 = Inr (0, 0) \<and>
   find_short_path gc zero_aux (0, 0) (0, 0) = Some (Inr None) \<and>
   find_fast_path gc zero_aux (0, 0) (0, 0) = Some (Inr None)"
  using zero_aux_built
  by (simp add: find_short_path_def find_fast_path_def get_nearest_node_id_def falsy_id_def
      lat_lon_of_def zero_aux_def)

section \<open>The node id 0\<close>

lemma zero_one_aux_built:
  "build_auxiliary_structures [node_at 0 0 0, node_at 1 0 1] [residential [0, 1]] = Inr zero_one_aux"
  by (simp add: build_defs zero_one_aux_def fun_eq_iff)

lemma build_no_edge_from_zero:
  assumes "build_auxiliary_structures ns ws = Inr aux"
  shows "edge_weight aux 0 v = None"
proof (cases "edge_weight aux 0 v")
  case None
  then show ?thesis .
next
  case (Some x)
  from build_edge_origin[OF assms Some] show ?thesis by (auto simp: way_edges_def)
qed

text \<open>
  C10. Whenever the nearest-node lookup resolves either coordinate of a query to the node id 0,
  \<open>find_short_path\<close> and \<open>find_fast_path\<close> return \<open>None\<close> before any search is started,
  because \<open>not n1\<close> is true for the id 0; and no graph that \<open>build_auxiliary_structures\<close>
  returns has an edge whose source is the node 0, because \<open>if prev_node_id:\<close> is false for it.
\<close>

theorem node_zero_is_falsy:
  "(get_nearest_node_id gc loc1 aux = Some 0 \<or> get_nearest_node_id gc loc2 aux = Some 0 \<longrightarrow>
      find_short_path gc aux loc1 loc2 = Some (Inr None) \<and>
      find_fast_path gc aux loc1 loc2 = Some (Inr None)) \<and>
   (build_auxiliary_structures node_records way_records = Inr built \<longrightarrow>
      edge_weight built 0 v = None)"
  by (auto simp: find_short_path_def find_fast_path_def falsy_id_def Let_def
      build_no_edge_from_zero)

text \<open>The two-way street 0 - 1 with both nodes described: a graph with the node 0, where a
  query from the coordinate of node 0 finds nothing and the edge 0 \<rightarrow> 1 is missing while
  1 \<rightarrow> 0 is there.\<close>

theorem node_zero_is_falsy_witness:
  "build_auxiliary_structures [node_at 0 0 0, node_at 1 0 1] [residential [0, 1]] = Inr zero_one_aux \<and>
   get_nearest_node_id flat_distance (0, 0) zero_one_aux = Some 0 \<and>
   get_nearest_node_id flat_distance (0, 1) zero_one_aux = Some 1 \<and>
   find_short_path flat_distance zero_one_aux (0, 0) (0, 1) = Some (Inr None) \<and>
   find_fast_path flat_distance zero_one_aux (0, 0) (0, 1) = Some (Inr None) \<and>
   edge_weight zero_one_aux 0 1 = None \<and>
   edge_weight zero_one_aux 1 0 = Some (Num 25)"
proof -
  have a: "get_nearest_node_id flat_distance (0, 0) zero_one_aux = Some 0"
    by (simp add: get_nearest_node_id_def zero_one_aux_def flat_distance_def)
  have b: "get_nearest_node_id flat_distance (0, 1) zero_one_aux = Some 1"
    by (simp add: get_nearest_node_id_def zero_one_aux_def flat_distance_def)
  have c: "edge_weight zero_one_aux 1 0 = Some (Num 25)"
    by (simp add: edge_weight_def zero_one_aux_def)
  from node_zero_is_falsy[of flat_distance "(0, 0)" zero_one_aux "(0, 1)"
      "[node_at 0 0 0, node_at 1 0 1]" "[residential [0, 1]]" zero_one_aux 1]
    a b c zero_one_aux_built
  show ?thesis by simp
qed

end
